theory Spec2Isabelle
  imports Main "HOL-Library.AList"
begin

section \<open>Data model\<close>

text \<open>
  A Python \<open>Node\<close> object is mutable and is shared by reference: the same child object is
  stored in \<open>left\<close>/\<open>right\<close> and in the \<open>children\<close> list. The model therefore keeps the
  objects in an explicit store. An address is the position of the object in the store, a
  reference that may be \<open>None\<close> is an \<open>addr option\<close>, and constructing an object appends
  it to the store. Objects are never removed from the store: an object that is no longer
  referenced is simply unreachable.
\<close>

type_synonym addr = nat

record 'v node =
  nvalue :: 'v
  left :: "addr option"
  right :: "addr option"
  children :: "addr option list"

type_synonym 'v heap = "'v node list"

text \<open>
  Every failure of the source is a \<open>ValueError\<close> that differs only in its message; the
  constructors below name the raise sites after the spec's taxonomy. \<open>AttributeError\<close>
  and \<open>IndexError\<close> are the errors the Python runtime itself raises when an attribute of
  \<open>None\<close> is read or a list is indexed out of range.
\<close>

datatype error =
    NullRootError
  | InvalidPathError
  | InvalidDirectionError
  | PathBrokenError
  | ChildNotFoundError
  | DuplicateNodeError
  | IndexOutOfRangeError
  | AttributeError
  | IndexError

text \<open>\<open>Node.__init__\<close>: the fields of a fresh object.\<close>

definition Node_init :: "'v \<Rightarrow> 'v node" where
  "Node_init v = \<lparr>nvalue = v, left = None, right = None, children = []\<rparr>"

text \<open>\<open>Node(value)\<close>: allocate the fresh object, return its address and the new store.\<close>

definition Node :: "'v heap \<Rightarrow> 'v \<Rightarrow> addr \<times> 'v heap" where
  "Node h v = (length h, h @ [Node_init v])"

text \<open>\<open>Node.add_child\<close>, as the new contents of \<open>self\<close>.\<close>

definition add_child :: "'v node \<Rightarrow> addr \<Rightarrow> 'v node" where
  "add_child self child =
     (let s1 = self\<lparr>children := children self @ [Some child]\<rparr>
      in if length (children s1) = 1 then s1\<lparr>left := Some child\<rparr>
         else if length (children s1) = 2 then s1\<lparr>right := Some child\<rparr>
         else s1)"

definition create_tree :: "'v heap \<Rightarrow> 'v \<Rightarrow> addr \<times> 'v heap" where
  "create_tree h v = Node h v"

section \<open>Python built-ins used by the path resolver\<close>

text \<open>\<open>str.split(sep)\<close> for a one-character separator: never returns the empty list.\<close>

fun split :: "char \<Rightarrow> string \<Rightarrow> string list" where
  "split sep [] = [[]]"
| "split sep (c # cs) =
     (if c = sep then [] # split sep cs
      else (case split sep cs of [] \<Rightarrow> [[c]] | w # ws \<Rightarrow> (c # w) # ws))"

text \<open>
  \<open>str.upper()\<close> of one character, on ASCII letters. A character outside ASCII is left
  as it is; its real upper case is never \<open>L\<close> or \<open>R\<close>, the only results the source
  compares with.
\<close>

definition upper :: "char \<Rightarrow> string" where
  "upper c =
     (if 97 \<le> (of_char c :: nat) \<and> (of_char c :: nat) \<le> 122
      then [char_of ((of_char c :: nat) - 32)] else [c])"

text \<open>
  \<open>int(s)\<close> for a string in base 10: surrounding whitespace is dropped, one sign is
  allowed, the digits may be grouped by single underscores. \<open>None\<close> stands for the
  \<open>ValueError\<close> of a string that is not an integer literal. A \<open>char\<close> is a code point
  below 256; among these the whitespace \<open>int\<close> drops is exactly the set below and the
  digits it reads are exactly \<open>0\<close> to \<open>9\<close>.
\<close>

definition is_space :: "char \<Rightarrow> bool" where
  "is_space c = ((of_char c :: nat) \<in> {9, 10, 11, 12, 13, 32, 133, 160})"

definition strip :: "string \<Rightarrow> string" where
  "strip s = rev (dropWhile is_space (rev (dropWhile is_space s)))"

definition digit_val :: "char \<Rightarrow> nat option" where
  "digit_val c =
     (if 48 \<le> (of_char c :: nat) \<and> (of_char c :: nat) \<le> 57
      then Some ((of_char c :: nat) - 48) else None)"

fun digits :: "nat \<Rightarrow> string \<Rightarrow> nat option" where
  "digits acc [] = Some acc"
| "digits acc [c] =
     (case digit_val c of None \<Rightarrow> None | Some k \<Rightarrow> Some (10 * acc + k))"
| "digits acc (c # d # ds) =
     (if c = CHR ''_'' then
        (case digit_val d of None \<Rightarrow> None | Some k \<Rightarrow> digits (10 * acc + k) ds)
      else
        (case digit_val c of None \<Rightarrow> None | Some k \<Rightarrow> digits (10 * acc + k) (d # ds)))"

text \<open>
  The interpreter's default limit on the number of digits of a decimal literal
  (\<open>sys.int_info.default_max_str_digits\<close>); the source never changes it. A literal with
  more digits, leading zeros counted and underscores not, is a \<open>ValueError\<close> too.
\<close>

definition max_str_digits :: nat where
  "max_str_digits = 4300"

definition unsigned :: "string \<Rightarrow> nat option" where
  "unsigned s =
     (case s of [] \<Rightarrow> None
      | d # ds \<Rightarrow>
          (case digit_val d of None \<Rightarrow> None
           | Some k \<Rightarrow>
               (case digits k ds of None \<Rightarrow> None
                | Some n \<Rightarrow>
                    if length (filter (\<lambda>c. c \<noteq> CHR ''_'') s) > max_str_digits then None
                    else Some n)))"

definition py_int :: "string \<Rightarrow> int option" where
  "py_int s =
     (case strip s of
        [] \<Rightarrow> None
      | c # cs \<Rightarrow>
          if c = CHR ''-'' then map_option (\<lambda>n. - int n) (unsigned cs)
          else if c = CHR ''+'' then map_option int (unsigned cs)
          else map_option int (unsigned (c # cs)))"

text \<open>
  List subscription \<open>xs[i]\<close> with Python's rules: positions \<open>0 .. len-1\<close> from the
  front, \<open>-1 .. -len\<close> from the back, anything else raises.
\<close>

definition py_index :: "'a list \<Rightarrow> int \<Rightarrow> error + 'a" where
  "py_index xs i =
     (if 0 \<le> i \<and> i < int (length xs) then Inr (xs ! nat i)
      else if i < 0 \<and> - i \<le> int (length xs) then Inr (xs ! nat (int (length xs) + i))
      else Inl IndexError)"

section \<open>Insertion by path\<close>

text \<open>
  The loop \<open>for idx_str in indices[:-1]\<close> of general mode. \<open>current\<close> may become \<open>None\<close>,
  because binary-mode insertion stores a \<open>None\<close> placeholder in \<open>children\<close>; reading
  \<open>current.children\<close> then raises.
\<close>

fun navigate_general :: "'v heap \<Rightarrow> addr option \<Rightarrow> string list \<Rightarrow> error + addr option" where
  "navigate_general h current [] = Inr current"
| "navigate_general h current (idx_str # rest) =
     (case py_int idx_str of
        None \<Rightarrow> Inl InvalidPathError
      | Some idx \<Rightarrow>
          (case current of
             None \<Rightarrow> Inl AttributeError
           | Some c \<Rightarrow>
               if idx \<ge> int (length (children (h ! c))) then Inl ChildNotFoundError
               else (case py_index (children (h ! c)) idx of
                       Inl e \<Rightarrow> Inl e
                     | Inr nxt \<Rightarrow> navigate_general h nxt rest)))"

text \<open>The loop \<open>for direction in path[:-1]\<close> of binary mode.\<close>

fun navigate_binary :: "'v heap \<Rightarrow> addr \<Rightarrow> string \<Rightarrow> error + addr" where
  "navigate_binary h current [] = Inr current"
| "navigate_binary h current (direction # rest) =
     (if upper direction = ''L'' then
        (case left (h ! current) of
           None \<Rightarrow> Inl PathBrokenError
         | Some l \<Rightarrow> navigate_binary h l rest)
      else if upper direction = ''R'' then
        (case right (h ! current) of
           None \<Rightarrow> Inl PathBrokenError
         | Some r \<Rightarrow> navigate_binary h r rest)
      else Inl InvalidDirectionError)"

text \<open>
  The general-mode branch. The new object is constructed before the final index is
  compared, so a failure after that point leaves one unreferenced object in the store.
\<close>

definition add_general :: "'v heap \<Rightarrow> addr \<Rightarrow> string \<Rightarrow> 'v \<Rightarrow> (error + addr option) \<times> 'v heap" where
  "add_general h root path v =
     (let indices = split CHR ''-'' path
      in case navigate_general h (Some root) (butlast indices) of
           Inl e \<Rightarrow> (Inl e, h)
         | Inr current \<Rightarrow>
             (case py_int (last indices) of
                None \<Rightarrow> (Inl InvalidPathError, h)
              | Some final_idx \<Rightarrow>
                  (case Node h v of
                     (new_node, h1) \<Rightarrow>
                       (case current of
                          None \<Rightarrow> (Inl AttributeError, h1)
                        | Some c \<Rightarrow>
                            if final_idx = int (length (children (h1 ! c)))
                            then (Inr (Some root), h1[c := add_child (h1 ! c) new_node])
                            else (Inl IndexOutOfRangeError, h1)))))"

text \<open>The binary-mode branch.\<close>

definition add_binary :: "'v heap \<Rightarrow> addr \<Rightarrow> string \<Rightarrow> 'v \<Rightarrow> (error + addr option) \<times> 'v heap" where
  "add_binary h root path v =
     (case navigate_binary h root (butlast path) of
        Inl e \<Rightarrow> (Inl e, h)
      | Inr c \<Rightarrow>
          (let last_direction = upper (last path)
           in if last_direction = ''L'' then
                (if left (h ! c) \<noteq> None then (Inl DuplicateNodeError, h)
                 else (case Node h v of
                         (new_node, h1) \<Rightarrow>
                           (let n1 = (h1 ! c)\<lparr>left := Some new_node\<rparr>;
                                n2 = n1\<lparr>children := children n1 @ [left n1]\<rparr>
                            in (Inr (Some root), h1[c := n2]))))
              else if last_direction = ''R'' then
                (if right (h ! c) \<noteq> None then (Inl DuplicateNodeError, h)
                 else (case Node h v of
                         (new_node, h1) \<Rightarrow>
                           (let n1 = (h1 ! c)\<lparr>right := Some new_node\<rparr>;
                                n2 = (if length (children n1) = 0
                                      then n1\<lparr>children := children n1 @ [None]\<rparr> else n1);
                                n3 = n2\<lparr>children := children n2 @ [right n2]\<rparr>
                            in (Inr (Some root), h1[c := n3]))))
              else (Inl InvalidDirectionError, h)))"

definition add_node_by_path ::
  "'v heap \<Rightarrow> addr option \<Rightarrow> string \<Rightarrow> 'v \<Rightarrow> bool \<Rightarrow> (error + addr option) \<times> 'v heap" where
  "add_node_by_path h root path v is_general =
     (case root of
        None \<Rightarrow> (Inl NullRootError, h)
      | Some r \<Rightarrow>
          if path = [] then (Inl InvalidPathError, h)
          else if is_general then add_general h r path v
          else add_binary h r path v)"

section \<open>Breadth-first lookup and edit\<close>

text \<open>
  The \<open>while queue\<close> loop of \<open>find_node\<close>. The queue holds references, and
  \<open>queue.extend(current.children)\<close> copies a \<open>None\<close> placeholder into it as it is; reading
  \<open>current.value\<close> of such an entry raises. The loop need not end on a store with a
  cycle, so the result is optional: \<open>None\<close> is "does not return".
\<close>

partial_function (option) find_loop ::
  "'v heap \<Rightarrow> addr option list \<Rightarrow> 'v \<Rightarrow> (error + addr option) option" where
  "find_loop h queue v =
     (case queue of
        [] \<Rightarrow> Some (Inr None)
      | current # rest \<Rightarrow>
          (case current of
             None \<Rightarrow> Some (Inl AttributeError)
           | Some c \<Rightarrow>
               if nvalue (h ! c) = v then Some (Inr (Some c))
               else if length (children (h ! c)) > 0
                    then find_loop h (rest @ children (h ! c)) v
                    else find_loop h
                           (rest @ (case left (h ! c) of None \<Rightarrow> [] | Some l \<Rightarrow> [Some l])
                                 @ (case right (h ! c) of None \<Rightarrow> [] | Some r \<Rightarrow> [Some r])) v))"

declare find_loop.simps [code]

definition find_node :: "'v heap \<Rightarrow> addr option \<Rightarrow> 'v \<Rightarrow> (error + addr option) option" where
  "find_node h root v =
     (case root of None \<Rightarrow> Some (Inr None) | Some r \<Rightarrow> find_loop h [Some r] v)"

definition edit_node ::
  "'v heap \<Rightarrow> addr option \<Rightarrow> 'v \<Rightarrow> 'v \<Rightarrow> ((error + bool) \<times> 'v heap) option" where
  "edit_node h root old_value new_value =
     (case find_node h root old_value of
        None \<Rightarrow> None
      | Some (Inl e) \<Rightarrow> Some (Inl e, h)
      | Some (Inr None) \<Rightarrow> Some (Inr False, h)
      | Some (Inr (Some a)) \<Rightarrow> Some (Inr True, h[a := (h ! a)\<lparr>nvalue := new_value\<rparr>]))"

section \<open>Deletion by value\<close>

text \<open>
  The inner loop \<open>for i, child in enumerate(current.children)\<close>: it stops at the first
  child whose value matches, and otherwise appends each child to the queue. A \<open>None\<close>
  child raises at \<open>child.value\<close>.
\<close>

datatype scan = Match nat | NoMatch "addr list"

fun scan_children ::
  "'v heap \<Rightarrow> addr option list \<Rightarrow> nat \<Rightarrow> 'v \<Rightarrow> addr list \<Rightarrow> error + scan" where
  "scan_children h [] i v queue = Inr (NoMatch queue)"
| "scan_children h (child # rest) i v queue =
     (case child of
        None \<Rightarrow> Inl AttributeError
      | Some c \<Rightarrow>
          if nvalue (h ! c) = v then Inr (Match i)
          else scan_children h rest (Suc i) v (queue @ [c]))"

text \<open>
  \<open>current.children.pop(i)\<close> followed by the update of the binary pointers, as the new
  contents of \<open>current\<close>.
\<close>

definition pop_child :: "'v node \<Rightarrow> nat \<Rightarrow> 'v node" where
  "pop_child current i =
     (let c1 = current\<lparr>children := take i (children current) @ drop (Suc i) (children current)\<rparr>;
          c2 = (if i = 0 \<and> length (children c1) \<ge> 1 then c1\<lparr>left := children c1 ! 0\<rparr>
                else if i = 0 then c1\<lparr>left := None\<rparr>
                else c1);
          c3 = (if i \<le> 1 \<and> length (children c2) \<ge> 2 then c2\<lparr>right := children c2 ! 1\<rparr>
                else if i = 1 then c2\<lparr>right := None\<rparr>
                else c2)
      in c3)"

definition opt_list :: "'a option \<Rightarrow> 'a list" where
  "opt_list x = (case x of None \<Rightarrow> [] | Some y \<Rightarrow> [y])"

text \<open>
  The \<open>while queue\<close> loop of \<open>delete_node\<close>. The store is written only immediately
  before a \<open>return\<close>, so the loop reads \<open>h\<close> and returns the final store.
\<close>

partial_function (option) delete_loop ::
  "'v heap \<Rightarrow> addr \<Rightarrow> addr list \<Rightarrow> 'v \<Rightarrow> ((error + addr option) \<times> 'v heap) option" where
  "delete_loop h root queue v =
     (case queue of
        [] \<Rightarrow> Some (Inr (Some root), h)
      | current # rest \<Rightarrow>
          (case scan_children h (children (h ! current)) 0 v rest of
             Inl e \<Rightarrow> Some (Inl e, h)
           | Inr (Match i) \<Rightarrow>
               Some (Inr (Some root), h[current := pop_child (h ! current) i])
           | Inr (NoMatch queue1) \<Rightarrow>
               if length (children (h ! current)) = 0 then
                 (if (case left (h ! current) of
                        None \<Rightarrow> False | Some l \<Rightarrow> nvalue (h ! l) = v)
                  then Some (Inr (Some root), h[current := (h ! current)\<lparr>left := None\<rparr>])
                  else if (case right (h ! current) of
                             None \<Rightarrow> False | Some r \<Rightarrow> nvalue (h ! r) = v)
                  then Some (Inr (Some root), h[current := (h ! current)\<lparr>right := None\<rparr>])
                  else delete_loop h root
                         (queue1 @ opt_list (left (h ! current))
                                 @ opt_list (right (h ! current))) v)
               else delete_loop h root queue1 v))"

declare delete_loop.simps [code]

definition delete_node ::
  "'v heap \<Rightarrow> addr option \<Rightarrow> 'v \<Rightarrow> ((error + addr option) \<times> 'v heap) option" where
  "delete_node h root v =
     (case root of
        None \<Rightarrow> Some (Inr None, h)
      | Some r \<Rightarrow>
          if nvalue (h ! r) = v then Some (Inr None, h)
          else delete_loop h r [r] v)"

section \<open>Document codec\<close>

text \<open>
  The values the codec handles are Python objects: \<open>None\<close>, a dictionary with string
  keys (in insertion order), or anything else. A node built from a document stores the
  object found under the key \<open>value\<close>, so the nodes of this section hold such objects.
\<close>

datatype 'a pyval = PNone | PAtom 'a | PDict "(string \<times> 'a pyval) list"

lemma map_of_pyval_size: "map_of kvs k = Some d \<Longrightarrow> size d < size (PDict kvs)"
  by (induction kvs) (auto split: if_splits)

text \<open>
  \<open>_dict_to_tree\<close>. \<open>'left' in tree_dict\<close> is \<open>map_of kvs ''left'' \<noteq> None\<close>; the root is
  constructed first, then each subtree is built and stored into the root.
\<close>

function dict_to_tree :: "'a pyval heap \<Rightarrow> 'a pyval \<Rightarrow> addr option \<times> 'a pyval heap" where
  "dict_to_tree h PNone = (None, h)"
| "dict_to_tree h (PAtom x) = (None, h)"
| "dict_to_tree h (PDict kvs) =
     (case map_of kvs ''value'' of
        None \<Rightarrow> (None, h)
      | Some v \<Rightarrow>
          (case Node h v of
             (root, h1) \<Rightarrow>
               (let h2 = (case map_of kvs ''left'' of
                            None \<Rightarrow> h1
                          | Some dl \<Rightarrow>
                              (case dict_to_tree h1 dl of
                                 (l, h') \<Rightarrow> h'[root := (h' ! root)\<lparr>left := l\<rparr>]));
                    h3 = (case map_of kvs ''right'' of
                            None \<Rightarrow> h2
                          | Some dr \<Rightarrow>
                              (case dict_to_tree h2 dr of
                                 (r, h') \<Rightarrow> h'[root := (h' ! root)\<lparr>right := r\<rparr>]))
                in (Some root, h3))))"
  by pat_completeness auto
termination
  by (relation "measure (\<lambda>(h, d). size d)") (auto dest: map_of_pyval_size)

text \<open>
  \<open>_tree_to_dict\<close>. The recursion follows \<open>left\<close>/\<open>right\<close> through the store and need
  not end on a cyclic store, so the result is optional. \<open>tree_dict[k] = x\<close> is
  \<open>AList.update\<close>: it replaces the entry of an existing key and appends a new one.
\<close>

partial_function (option) tree_to_dict :: "'a pyval heap \<Rightarrow> addr option \<Rightarrow> 'a pyval option" where
  "tree_to_dict h root =
     (case root of
        None \<Rightarrow> Some PNone
      | Some r \<Rightarrow>
          Option.bind
            (case left (h ! r) of
               None \<Rightarrow> Some [(''value'', nvalue (h ! r))]
             | Some l \<Rightarrow>
                 Option.bind (tree_to_dict h (Some l))
                   (\<lambda>dl. Some (AList.update ''left'' dl [(''value'', nvalue (h ! r))])))
            (\<lambda>tree_dict.
               (case right (h ! r) of
                  None \<Rightarrow> Some (PDict tree_dict)
                | Some rr \<Rightarrow>
                    Option.bind (tree_to_dict h (Some rr))
                      (\<lambda>dr. Some (PDict (AList.update ''right'' dr tree_dict))))))"

declare tree_to_dict.simps [code]

section \<open>Notions used in the statements\<close>

text \<open>
  The shape of a tree over \<open>left\<close>/\<open>right\<close> only: a value and two optional subtrees.
  \<open>shape_from k h root s\<close> says that following \<open>left\<close> and \<open>right\<close> from \<open>root\<close> in
  the store \<open>h\<close> unfolds to exactly \<open>s\<close>, through allocated objects at addresses
  \<open>\<ge> k\<close>. Two trees are equal under value-and-shape comparison when they have the
  same shape.
\<close>

datatype 'v shape = Shape 'v "'v shape option" "'v shape option"

fun shape_from :: "nat \<Rightarrow> 'v heap \<Rightarrow> addr option \<Rightarrow> 'v shape option \<Rightarrow> bool" where
  "shape_from k h None None = True"
| "shape_from k h (Some a) (Some (Shape v l r)) =
     (k \<le> a \<and> a < length h \<and> nvalue (h ! a) = v
      \<and> shape_from k h (left (h ! a)) l \<and> shape_from k h (right (h ! a)) r)"
| "shape_from k h None (Some s) = False"
| "shape_from k h (Some a) None = False"

definition has_shape :: "'v heap \<Rightarrow> addr option \<Rightarrow> 'v shape option \<Rightarrow> bool" where
  "has_shape h root s = shape_from 0 h root s"

text \<open>The document of a shape: what \<open>_tree_to_dict\<close> computes, as a function of the shape.\<close>

fun doc_of :: "'a pyval shape \<Rightarrow> 'a pyval" where
  "doc_of (Shape v l r) =
     PDict (let d0 = [(''value'', v)];
                d1 = (case l of None \<Rightarrow> d0 | Some ls \<Rightarrow> AList.update ''left'' (doc_of ls) d0);
                d2 = (case r of None \<Rightarrow> d1 | Some rs \<Rightarrow> AList.update ''right'' (doc_of rs) d1)
            in d2)"

text \<open>
  \<open>grown h h'\<close>: the store \<open>h'\<close> keeps every object of \<open>h\<close> as it was, and every object
  added since has an empty \<open>children\<close> list.
\<close>

definition grown :: "'v heap \<Rightarrow> 'v heap \<Rightarrow> bool" where
  "grown h h' =
     (length h \<le> length h' \<and> (\<forall>a<length h. h' ! a = h ! a)
      \<and> (\<forall>a. length h \<le> a \<and> a < length h' \<longrightarrow> children (h' ! a) = []))"

text \<open>
  \<open>removed_under h h' p v\<close>: the stores differ exactly by a write to the object \<open>p\<close>,
  which keeps its value and had a child (in \<open>children\<close>, \<open>left\<close> or \<open>right\<close>) of value \<open>v\<close>.
\<close>

definition removed_under :: "'v heap \<Rightarrow> 'v heap \<Rightarrow> addr \<Rightarrow> 'v \<Rightarrow> bool" where
  "removed_under h h' p v =
     (p < length h \<and> h' = h[p := h' ! p] \<and> h' ! p \<noteq> h ! p
      \<and> nvalue (h' ! p) = nvalue (h ! p)
      \<and> (\<exists>c. nvalue (h ! c) = v
               \<and> (Some c \<in> set (children (h ! p)) \<or> left (h ! p) = Some c
                    \<or> right (h ! p) = Some c)))"

text \<open>
  \<open>closed_heap h\<close>: every reference stored in an object of \<open>h\<close> points to an object
  of \<open>h\<close>, as every reference of a running program does.
\<close>

definition ref_ok :: "'v heap \<Rightarrow> addr option \<Rightarrow> bool" where
  "ref_ok h x = (case x of None \<Rightarrow> True | Some a \<Rightarrow> a < length h)"

definition closed_heap :: "'v heap \<Rightarrow> bool" where
  "closed_heap h =
     list_all (\<lambda>n. ref_ok h (left n) \<and> ref_ok h (right n) \<and> list_all (ref_ok h) (children n)) h"

section \<open>Concrete trees\<close>

text \<open>
  The spec's binary scenario: a root of value 1, then \<open>L\<close> \<rightarrow> 2, \<open>R\<close> \<rightarrow> 3, \<open>LL\<close> \<rightarrow> 4,
  \<open>LR\<close> \<rightarrow> 5. The root is the object at address 0.
\<close>

definition scenario_inserted :: "int heap" where
  "scenario_inserted =
     foldl (\<lambda>h (path, v). snd (add_node_by_path h (Some 0) path v False))
       (snd (create_tree [] 1)) [(''L'', 2), (''R'', 3), (''LL'', 4), (''LR'', 5)]"

definition scenario_edited :: "int heap" where
  "scenario_edited = snd (the (edit_node scenario_inserted (Some 0) 5 50))"

definition scenario_deleted :: "(error + addr option) \<times> int heap" where
  "scenario_deleted = the (delete_node scenario_edited (Some 0) 4)"

text \<open>A root of value 1 with \<open>R\<close> \<rightarrow> 3 inserted first, and then \<open>L\<close> \<rightarrow> 2.\<close>

definition right_first :: "int heap" where
  "right_first = snd (add_node_by_path (snd (create_tree [] 1)) (Some 0) ''R'' 3 False)"

definition right_then_left :: "int heap" where
  "right_then_left = snd (add_node_by_path right_first (Some 0) ''L'' 2 False)"

text \<open>A root of value 10 with \<open>L\<close> \<rightarrow> 5 and \<open>R\<close> \<rightarrow> 15, as in the repository's tests.\<close>

definition left_and_right :: "int heap" where
  "left_and_right =
     snd (add_node_by_path (snd (add_node_by_path (snd (create_tree [] 10)) (Some 0) ''L'' 5 False))
            (Some 0) ''R'' 15 False)"

text \<open>A root of value 1 with \<open>L\<close> \<rightarrow> 2 only.\<close>

definition left_only :: "int heap" where
  "left_only = snd (add_node_by_path (snd (create_tree [] 1)) (Some 0) ''L'' 2 False)"

text \<open>A root of value 10 with two children added in general mode.\<close>

definition two_children :: "int heap" where
  "two_children =
     snd (add_node_by_path (snd (add_node_by_path (snd (create_tree [] 10)) (Some 0) ''0'' 5 True))
            (Some 0) ''1'' 15 True)"

text \<open>A document with a nested left subtree and a \<open>right\<close> entry that is not a dictionary.\<close>

definition doc_example :: "nat pyval" where
  "doc_example =
     PDict [(''value'', PAtom 1),
            (''left'', PDict [(''value'', PAtom 2), (''right'', PDict [(''value'', PDict [])])]),
            (''right'', PAtom 7)]"

text \<open>
  A tree built by binary-mode inserts whose values are Python objects, and its shape over
  \<open>left\<close>/\<open>right\<close>.
\<close>

definition codec_tree :: "nat pyval heap" where
  "codec_tree =
     foldl (\<lambda>h (path, v). snd (add_node_by_path h (Some 0) path v False))
       (snd (create_tree [] (PAtom 10)))
       [(''L'', PAtom 5), (''R'', PAtom 15), (''LL'', PAtom 3)]"

definition codec_shape :: "nat pyval shape" where
  "codec_shape =
     Shape (PAtom 10)
       (Some (Shape (PAtom 5) (Some (Shape (PAtom 3) None None)) None))
       (Some (Shape (PAtom 15) None None))"

text \<open>A general-mode path of one token with 4301 digits, one more than \<open>int\<close> accepts.\<close>

definition long_zeros :: string where
  "long_zeros = replicate 4301 CHR ''0''"

section \<open>The binary scenario\<close>

text \<open>
  Claim C1, as stated, fails. After \<open>edit(root, 5, 50)\<close>, \<open>delete(root, 4)\<close> returns
  the same root (address 0) whose left child is still the object of value 2 (address 1),
  but that object's \<open>left\<close> is not absent.
\<close>

theorem scenario_delete_left_left_present:
  "edit_node scenario_inserted (Some 0) 5 50 = Some (Inr True, scenario_edited)
   \<and> delete_node scenario_edited (Some 0) 4 = Some scenario_deleted
   \<and> fst scenario_deleted = Inr (Some 0)
   \<and> left (snd scenario_deleted ! 0) = Some 1
   \<and> nvalue (snd scenario_deleted ! 1) = 2
   \<and> left (snd scenario_deleted ! 1) \<noteq> None"
  by code_simp

text \<open>
  Claim C1, amended. In the scenario the four inserts build the expected tree, \<open>find\<close>
  reaches the object of value 5 and \<open>edit\<close> overwrites it with 50. \<open>delete(root, 4)\<close>
  then returns the same root; the object of value 2 keeps its value, its \<open>children\<close>
  list loses the deleted child and holds only the former right sibling, and its \<open>left\<close>
  becomes that sibling (the new \<open>children[0]\<close>, of value 50). Every other object is as
  it was.
\<close>

theorem scenario_delete_shifts_sibling:
  "scenario_inserted =
      [\<lparr>nvalue = 1, left = Some 1, right = Some 2, children = [Some 1, Some 2]\<rparr>,
       \<lparr>nvalue = 2, left = Some 3, right = Some 4, children = [Some 3, Some 4]\<rparr>,
       \<lparr>nvalue = 3, left = None, right = None, children = []\<rparr>,
       \<lparr>nvalue = 4, left = None, right = None, children = []\<rparr>,
       \<lparr>nvalue = 5, left = None, right = None, children = []\<rparr>]
   \<and> find_node scenario_inserted (Some 0) 5 = Some (Inr (Some 4))
   \<and> edit_node scenario_inserted (Some 0) 5 50 = Some (Inr True, scenario_edited)
   \<and> nvalue (scenario_edited ! 4) = 50
   \<and> delete_node scenario_edited (Some 0) 4 = Some scenario_deleted
   \<and> fst scenario_deleted = Inr (Some 0)
   \<and> length (snd scenario_deleted) = 5
   \<and> snd scenario_deleted ! 0 = scenario_edited ! 0
   \<and> left (snd scenario_deleted ! 0) = Some 1
   \<and> nvalue (snd scenario_deleted ! 1) = 2
   \<and> children (snd scenario_deleted ! 1) = [Some 4]
   \<and> left (snd scenario_deleted ! 1) = Some 4
   \<and> nvalue (snd scenario_deleted ! 4) = 50
   \<and> snd scenario_deleted ! 2 = scenario_edited ! 2
   \<and> snd scenario_deleted ! 3 = scenario_edited ! 3
   \<and> snd scenario_deleted ! 4 = scenario_edited ! 4"
  by code_simp

section \<open>The dual representation after binary inserts\<close>

text \<open>
  Claim C2 at the input "insert \<open>R\<close>, then insert \<open>L\<close>": both inserts succeed, and
  afterwards the root's \<open>left\<close> is the second new object while \<open>children[0]\<close> is still
  the \<open>None\<close> placeholder; the left child sits at index 2.
\<close>

theorem right_then_left_misaligned:
  "fst (add_node_by_path (snd (create_tree [] (1::int))) (Some 0) ''R'' 3 False) = Inr (Some 0)
   \<and> fst (add_node_by_path right_first (Some 0) ''L'' 2 False) = Inr (Some 0)
   \<and> left (right_then_left ! 0) = Some 2
   \<and> right (right_then_left ! 0) = Some 1
   \<and> children (right_then_left ! 0) = [None, Some 1, Some 2]
   \<and> children (right_then_left ! 0) ! 0 \<noteq> left (right_then_left ! 0)"
  by code_simp

section \<open>Lookup on a tree with a placeholder\<close>

text \<open>
  Claim C3 at the input "insert \<open>R\<close> into a fresh root, then look a value up": the insert
  succeeds and leaves \<open>children = [None, right]\<close>; \<open>find_node\<close> dequeues the \<open>None\<close> and
  raises, whether or not the value is in the tree, and \<open>edit_node\<close> raises with it.
\<close>

theorem find_node_raises_on_placeholder:
  "fst (add_node_by_path (snd (create_tree [] (1::int))) (Some 0) ''R'' 3 False) = Inr (Some 0)
   \<and> children (right_first ! 0) = [None, Some 1]
   \<and> find_node right_first (Some 0) 3 = Some (Inl AttributeError)
   \<and> find_node right_first (Some 0) 99 = Some (Inl AttributeError)
   \<and> edit_node right_first (Some 0) 3 4 = Some (Inl AttributeError, right_first)"
  by code_simp

section \<open>Deleting the first of two children\<close>

text \<open>
  Claim C4 at the input "root with children \<open>[a, b]\<close>, delete the value of \<open>a\<close>": the child
  is removed from \<open>children\<close> and \<open>left\<close> becomes the new \<open>children[0]\<close>, but \<open>right\<close> is
  not written: it still refers to \<open>b\<close> although \<open>children\<close> has no index 1 any more.
\<close>

theorem delete_first_child_stale_right:
  "left_and_right =
      [\<lparr>nvalue = 10, left = Some 1, right = Some 2, children = [Some 1, Some 2]\<rparr>,
       \<lparr>nvalue = 5, left = None, right = None, children = []\<rparr>,
       \<lparr>nvalue = 15, left = None, right = None, children = []\<rparr>]
   \<and> delete_node left_and_right (Some 0) 5 =
       Some (Inr (Some 0),
         [\<lparr>nvalue = 10, left = Some 2, right = Some 2, children = [Some 2]\<rparr>,
          \<lparr>nvalue = 5, left = None, right = None, children = []\<rparr>,
          \<lparr>nvalue = 15, left = None, right = None, children = []\<rparr>])"
  by code_simp

section \<open>A failed insert leaves the tree as it was\<close>

lemma add_binary_failure:
  "add_binary h r path v = (Inl e, h') \<Longrightarrow> h' = h"
  by (auto simp: add_binary_def Node_def Let_def split: sum.splits if_splits)

lemma add_general_failure:
  "add_general h r path v = (Inl e, h') \<Longrightarrow> h' = h \<or> h' = h @ [Node_init v]"
  by (auto simp: add_general_def Node_def Let_def split: sum.splits option.splits if_splits)

lemma failed_insert_frame:
  assumes "add_node_by_path h root path v is_general = (Inl e, h')"
  shows "length h \<le> length h' \<and> (\<forall>a. a < length h \<longrightarrow> h' ! a = h ! a)
         \<and> (h' = h \<or> (is_general \<and> h' = h @ [Node_init v]))"
proof -
  have "h' = h \<or> (is_general \<and> h' = h @ [Node_init v])"
    using assms add_binary_failure [of h _ path v e h'] add_general_failure [of h _ path v e h']
    by (auto simp: add_node_by_path_def split: option.splits if_splits)
  then show ?thesis by (auto simp: nth_append)
qed

lemma closed_heap_left:
  assumes "closed_heap h" "x < length h" "left (h ! x) = Some y"
  shows "y < length h"
proof -
  from assms(1,2) have "ref_ok h (left (h ! x))"
    by (simp add: closed_heap_def list_all_length)
  with assms(3) show ?thesis by (simp add: ref_ok_def)
qed

lemma closed_heap_right:
  assumes "closed_heap h" "x < length h" "right (h ! x) = Some y"
  shows "y < length h"
proof -
  from assms(1,2) have "ref_ok h (right (h ! x))"
    by (simp add: closed_heap_def list_all_length)
  with assms(3) show ?thesis by (simp add: ref_ok_def)
qed

lemma add_binary_L:
  "navigate_binary h r (butlast path) = Inr c \<Longrightarrow> upper (last path) = ''L'' \<Longrightarrow>
     add_binary h r path v =
       (if left (h ! c) \<noteq> None then (Inl DuplicateNodeError, h)
        else (Inr (Some r),
              (h @ [Node_init v])
                [c := ((h @ [Node_init v]) ! c)
                        \<lparr>left := Some (length h),
                         children := children ((h @ [Node_init v]) ! c) @ [Some (length h)]\<rparr>]))"
  by (simp add: add_binary_def Node_def Let_def)

lemma add_binary_R:
  "navigate_binary h r (butlast path) = Inr c \<Longrightarrow> upper (last path) = ''R'' \<Longrightarrow>
     add_binary h r path v =
       (if right (h ! c) \<noteq> None then (Inl DuplicateNodeError, h)
        else (Inr (Some r),
              (h @ [Node_init v])
                [c := ((h @ [Node_init v]) ! c)
                        \<lparr>right := Some (length h),
                         children :=
                           (if length (children ((h @ [Node_init v]) ! c)) = 0
                            then children ((h @ [Node_init v]) ! c) @ [None]
                            else children ((h @ [Node_init v]) ! c)) @ [Some (length h)]\<rparr>]))"
  by (simp add: add_binary_def Node_def Let_def)

lemma navigate_binary_kept:
  assumes cl: "closed_heap h"
    and kl: "\<And>x y. x < length h \<Longrightarrow> left (h ! x) = Some y \<Longrightarrow> left (h' ! x) = Some y"
    and kr: "\<And>x y. x < length h \<Longrightarrow> right (h ! x) = Some y \<Longrightarrow> right (h' ! x) = Some y"
  shows "r < length h \<Longrightarrow> navigate_binary h r p = Inr c \<Longrightarrow>
           navigate_binary h' r p = Inr c \<and> c < length h"
proof (induction p arbitrary: r)
  case Nil
  then show ?case by simp
next
  case (Cons d ds)
  show ?case
  proof (cases "upper d = ''L''")
    case True
    from Cons.prems(2) True obtain l where l: "left (h ! r) = Some l"
      and nav: "navigate_binary h l ds = Inr c"
      by (cases "left (h ! r)") simp_all
    from closed_heap_left [OF cl Cons.prems(1) l] have "l < length h" .
    from Cons.IH [OF this nav] kl [OF Cons.prems(1) l] True show ?thesis by simp
  next
    case False
    from Cons.prems(2) False have R: "upper d = ''R''"
      by (cases "upper d = ''R''") simp_all
    from Cons.prems(2) False R obtain x where x: "right (h ! r) = Some x"
      and nav: "navigate_binary h x ds = Inr c"
      by (cases "right (h ! r)") simp_all
    from closed_heap_right [OF cl Cons.prems(1) x] have "x < length h" .
    from Cons.IH [OF this nav] kr [OF Cons.prems(1) x] False R show ?thesis by simp
  qed
qed

lemma add_binary_L_twice:
  assumes cl: "closed_heap h" and r: "r < length h"
    and nav: "navigate_binary h r (butlast path) = Inr c"
    and L: "upper (last path) = ''L''"
    and ok: "add_binary h r path v = (Inr x, h1)"
  shows "add_binary h1 r path w = (Inl DuplicateNodeError, h1)"
proof -
  have "navigate_binary h r (butlast path) = Inr c \<and> c < length h"
    by (rule navigate_binary_kept [where h' = h, OF cl _ _ r nav])
  then have c: "c < length h" ..
  have at: "(h @ [Node_init v]) ! c = h ! c" using c by (simp add: nth_append)
  have none: "left (h ! c) = None"
  proof (cases "left (h ! c)")
    case (Some l)
    with add_binary_L [OF nav L, of v]
    have "add_binary h r path v = (Inl DuplicateNodeError, h)" by simp
    with ok show ?thesis by simp
  qed
  from none add_binary_L [OF nav L, of v]
  have "add_binary h r path v = (Inr (Some r),
      (h @ [Node_init v])[c := (h ! c)\<lparr>left := Some (length h),
                 children := children (h ! c) @ [Some (length h)]\<rparr>])"
    by (simp add: at)
  with ok have h1: "h1 = (h @ [Node_init v])[c := (h ! c)\<lparr>left := Some (length h),
                 children := children (h ! c) @ [Some (length h)]\<rparr>]"
    by simp
  have kl: "\<And>a b. a < length h \<Longrightarrow> left (h ! a) = Some b \<Longrightarrow> left (h1 ! a) = Some b"
  proof -
    fix a b assume a: "a < length h" "left (h ! a) = Some b"
    with none have "a \<noteq> c" by auto
    with a show "left (h1 ! a) = Some b" unfolding h1 by (simp add: nth_append)
  qed
  have kr: "\<And>a b. a < length h \<Longrightarrow> right (h ! a) = Some b \<Longrightarrow> right (h1 ! a) = Some b"
  proof -
    fix a b assume a: "a < length h" "right (h ! a) = Some b"
    then show "right (h1 ! a) = Some b"
      unfolding h1 by (cases "a = c") (simp_all add: nth_append)
  qed
  have "navigate_binary h1 r (butlast path) = Inr c \<and> c < length h"
  proof (rule navigate_binary_kept [where h' = h1, OF cl _ _ r nav])
    fix x y assume "x < length h" "left (h ! x) = Some y"
    then show "left (h1 ! x) = Some y" by (rule kl)
  next
    fix x y assume "x < length h" "right (h ! x) = Some y"
    then show "right (h1 ! x) = Some y" by (rule kr)
  qed
  then have nav1: "navigate_binary h1 r (butlast path) = Inr c" ..
  have "left (h1 ! c) \<noteq> None" unfolding h1 using c by simp
  with add_binary_L [OF nav1 L, of w] show ?thesis by simp
qed

lemma add_binary_R_twice:
  assumes cl: "closed_heap h" and r: "r < length h"
    and nav: "navigate_binary h r (butlast path) = Inr c"
    and R: "upper (last path) = ''R''"
    and ok: "add_binary h r path v = (Inr x, h1)"
  shows "add_binary h1 r path w = (Inl DuplicateNodeError, h1)"
proof -
  have "navigate_binary h r (butlast path) = Inr c \<and> c < length h"
    by (rule navigate_binary_kept [where h' = h, OF cl _ _ r nav])
  then have c: "c < length h" ..
  have at: "(h @ [Node_init v]) ! c = h ! c" using c by (simp add: nth_append)
  have none: "right (h ! c) = None"
  proof (cases "right (h ! c)")
    case (Some l)
    with add_binary_R [OF nav R, of v]
    have "add_binary h r path v = (Inl DuplicateNodeError, h)" by simp
    with ok show ?thesis by simp
  qed
  define cs where "cs =
      (if length (children (h ! c)) = 0 then children (h ! c) @ [None] else children (h ! c))
        @ [Some (length h)]"
  from none add_binary_R [OF nav R, of v]
  have "add_binary h r path v = (Inr (Some r),
      (h @ [Node_init v])[c := (h ! c)\<lparr>right := Some (length h), children := cs\<rparr>])"
    by (simp add: at cs_def)
  with ok have h1: "h1 = (h @ [Node_init v])[c := (h ! c)\<lparr>right := Some (length h),
                 children := cs\<rparr>]"
    by simp
  have kl: "\<And>a b. a < length h \<Longrightarrow> left (h ! a) = Some b \<Longrightarrow> left (h1 ! a) = Some b"
  proof -
    fix a b assume a: "a < length h" "left (h ! a) = Some b"
    then show "left (h1 ! a) = Some b"
      unfolding h1 by (cases "a = c") (simp_all add: nth_append)
  qed
  have kr: "\<And>a b. a < length h \<Longrightarrow> right (h ! a) = Some b \<Longrightarrow> right (h1 ! a) = Some b"
  proof -
    fix a b assume a: "a < length h" "right (h ! a) = Some b"
    with none have "a \<noteq> c" by auto
    with a show "right (h1 ! a) = Some b" unfolding h1 by (simp add: nth_append)
  qed
  have "navigate_binary h1 r (butlast path) = Inr c \<and> c < length h"
  proof (rule navigate_binary_kept [where h' = h1, OF cl _ _ r nav])
    fix x y assume "x < length h" "left (h ! x) = Some y"
    then show "left (h1 ! x) = Some y" by (rule kl)
  next
    fix x y assume "x < length h" "right (h ! x) = Some y"
    then show "right (h1 ! x) = Some y" by (rule kr)
  qed
  then have nav1: "navigate_binary h1 r (butlast path) = Inr c" ..
  have "right (h1 ! c) \<noteq> None" unfolding h1 using c by simp
  with add_binary_R [OF nav1 R, of w] show ?thesis by simp
qed

lemma add_binary_twice:
  assumes cl: "closed_heap h" and r: "r < length h"
    and ok: "add_binary h r path v = (Inr x, h1)"
  shows "add_binary h1 r path w = (Inl DuplicateNodeError, h1)"
proof -
  from ok obtain c where nav: "navigate_binary h r (butlast path) = Inr c"
    by (cases "navigate_binary h r (butlast path)") (simp_all add: add_binary_def)
  show ?thesis
  proof (cases "upper (last path) = ''L''")
    case True
    from add_binary_L_twice [OF cl r nav True ok] show ?thesis .
  next
    case False
    have R: "upper (last path) = ''R''"
    proof (rule ccontr)
      assume "upper (last path) \<noteq> ''R''"
      with False nav have "add_binary h r path v = (Inl InvalidDirectionError, h)"
        by (simp add: add_binary_def Let_def)
      with ok show False by simp
    qed
    from add_binary_R_twice [OF cl r nav R ok] show ?thesis .
  qed
qed

text \<open>
  Claim C5. Whenever \<open>add_node_by_path\<close> fails, with whatever error, every object that
  existed before the call has exactly the fields it had. In binary mode the store is
  unchanged altogether. In general mode the only possible difference is one fresh object
  that was constructed before the final index was rejected; nothing refers to it, so the
  tree reachable from the root is the same. A binary insert whose walk ends at a parent
  with the addressed slot occupied, at any depth, fails with \<open>DuplicateNodeError\<close> and
  changes nothing. In particular, in a store where every reference points to an object,
  repeating a binary insert that has just succeeded, at the same path and with any
  value, fails with \<open>DuplicateNodeError\<close> and changes nothing.
\<close>

theorem failed_insert_leaves_tree:
  "(add_node_by_path h root path v is_general = (Inl e, h') \<longrightarrow>
      length h \<le> length h' \<and> (\<forall>a. a < length h \<longrightarrow> h' ! a = h ! a)
      \<and> (h' = h \<or> (is_general \<and> h' = h @ [Node_init v])))
   \<and> (path \<noteq> [] \<and> navigate_binary h r (butlast path) = Inr c
        \<and> upper (last path) = ''L'' \<and> left (h ! c) \<noteq> None \<longrightarrow>
      add_node_by_path h (Some r) path v False = (Inl DuplicateNodeError, h))
   \<and> (path \<noteq> [] \<and> navigate_binary h r (butlast path) = Inr c
        \<and> upper (last path) = ''R'' \<and> right (h ! c) \<noteq> None \<longrightarrow>
      add_node_by_path h (Some r) path v False = (Inl DuplicateNodeError, h))
   \<and> (closed_heap h \<and> r < length h
        \<and> add_node_by_path h (Some r) path v False = (Inr x, g) \<longrightarrow>
      add_node_by_path g (Some r) path w False = (Inl DuplicateNodeError, g))"
proof -
  have A: "add_node_by_path h root path v is_general = (Inl e, h') \<longrightarrow>
      length h \<le> length h' \<and> (\<forall>a. a < length h \<longrightarrow> h' ! a = h ! a)
      \<and> (h' = h \<or> (is_general \<and> h' = h @ [Node_init v]))"
    by (rule impI) (rule failed_insert_frame)
  have B: "path \<noteq> [] \<and> navigate_binary h r (butlast path) = Inr c
        \<and> upper (last path) = ''L'' \<and> left (h ! c) \<noteq> None \<longrightarrow>
      add_node_by_path h (Some r) path v False = (Inl DuplicateNodeError, h)"
  proof (rule impI)
    assume "path \<noteq> [] \<and> navigate_binary h r (butlast path) = Inr c
        \<and> upper (last path) = ''L'' \<and> left (h ! c) \<noteq> None"
    then have p: "path \<noteq> []" and nav: "navigate_binary h r (butlast path) = Inr c"
      and L: "upper (last path) = ''L''" and occ: "left (h ! c) \<noteq> None"
      by simp_all
    from add_binary_L [OF nav L, of v] occ
    have "add_binary h r path v = (Inl DuplicateNodeError, h)" by simp
    with p show "add_node_by_path h (Some r) path v False = (Inl DuplicateNodeError, h)"
      by (simp add: add_node_by_path_def)
  qed
  have C: "path \<noteq> [] \<and> navigate_binary h r (butlast path) = Inr c
        \<and> upper (last path) = ''R'' \<and> right (h ! c) \<noteq> None \<longrightarrow>
      add_node_by_path h (Some r) path v False = (Inl DuplicateNodeError, h)"
  proof (rule impI)
    assume "path \<noteq> [] \<and> navigate_binary h r (butlast path) = Inr c
        \<and> upper (last path) = ''R'' \<and> right (h ! c) \<noteq> None"
    then have p: "path \<noteq> []" and nav: "navigate_binary h r (butlast path) = Inr c"
      and R: "upper (last path) = ''R''" and occ: "right (h ! c) \<noteq> None"
      by simp_all
    from add_binary_R [OF nav R, of v] occ
    have "add_binary h r path v = (Inl DuplicateNodeError, h)" by simp
    with p show "add_node_by_path h (Some r) path v False = (Inl DuplicateNodeError, h)"
      by (simp add: add_node_by_path_def)
  qed
  have D: "closed_heap h \<and> r < length h
        \<and> add_node_by_path h (Some r) path v False = (Inr x, g) \<longrightarrow>
      add_node_by_path g (Some r) path w False = (Inl DuplicateNodeError, g)"
  proof (rule impI)
    assume "closed_heap h \<and> r < length h
        \<and> add_node_by_path h (Some r) path v False = (Inr x, g)"
    then have cl: "closed_heap h" and r: "r < length h"
      and ok: "add_node_by_path h (Some r) path v False = (Inr x, g)"
      by simp_all
    have p: "path \<noteq> []"
    proof
      assume "path = []"
      then have "add_node_by_path h (Some r) path v False = (Inl InvalidPathError, h)"
        by (simp add: add_node_by_path_def)
      with ok show False by simp
    qed
    with ok have "add_binary h r path v = (Inr x, g)"
      by (simp add: add_node_by_path_def)
    from add_binary_twice [OF cl r this, of w] p
    show "add_node_by_path g (Some r) path w False = (Inl DuplicateNodeError, g)"
      by (simp add: add_node_by_path_def)
  qed
  show ?thesis by (rule conjI [OF A conjI [OF B conjI [OF C D]]])
qed

theorem failed_insert_leaves_tree_witness:
  "add_node_by_path left_only (Some 0) ''L'' 7 False = (Inl DuplicateNodeError, left_only)
   \<and> add_node_by_path left_only (Some 0) ''5'' 7 True
       = (Inl IndexOutOfRangeError, left_only @ [Node_init 7])
   \<and> (left_only @ [Node_init 7]) ! 0 = left_only ! 0
   \<and> (left_only @ [Node_init 7]) ! 1 = left_only ! 1
   \<and> fst (add_node_by_path left_only (Some 0) ''LL'' 4 False) = Inr (Some 0)
   \<and> add_node_by_path (snd (add_node_by_path left_only (Some 0) ''LL'' 4 False))
         (Some 0) ''LL'' 9 False
       = (Inl DuplicateNodeError, snd (add_node_by_path left_only (Some 0) ''LL'' 4 False))"
proof -
  have occ: "''L'' \<noteq> [] \<and> navigate_binary left_only 0 (butlast ''L'') = Inr 0
      \<and> upper (last ''L'') = ''L'' \<and> left (left_only ! 0) \<noteq> None"
    by code_simp
  from failed_insert_leaves_tree
    [where h = left_only and path = "''L''" and r = 0 and c = 0 and v = 7, THEN conjunct2,
      THEN conjunct1] occ
  have dup: "add_node_by_path left_only (Some 0) ''L'' 7 False
               = (Inl DuplicateNodeError, left_only)"
    by (rule mp)
  have rng: "add_node_by_path left_only (Some 0) ''5'' 7 True
               = (Inl IndexOutOfRangeError, left_only @ [Node_init 7])"
    by code_simp
  have len: "length left_only = 2" by code_simp
  from failed_insert_leaves_tree
    [where h = left_only and root = "Some 0" and path = "''5''" and v = 7
       and is_general = True and e = IndexOutOfRangeError
       and h' = "left_only @ [Node_init 7]", THEN conjunct1] rng
  have "\<forall>a. a < length left_only \<longrightarrow> (left_only @ [Node_init 7]) ! a = left_only ! a"
    by blast
  with len have same: "(left_only @ [Node_init 7]) ! 0 = left_only ! 0"
    "(left_only @ [Node_init 7]) ! 1 = left_only ! 1"
    by simp_all
  have okf: "fst (add_node_by_path left_only (Some 0) ''LL'' 4 False) = Inr (Some 0)"
    by code_simp
  then have ok: "add_node_by_path left_only (Some 0) ''LL'' 4 False
      = (Inr (Some 0), snd (add_node_by_path left_only (Some 0) ''LL'' 4 False))"
    by (simp add: prod_eq_iff)
  have cl: "closed_heap left_only \<and> 0 < length left_only" by code_simp
  from failed_insert_leaves_tree
    [where h = left_only and path = "''LL''" and r = 0 and v = 4 and x = "Some 0"
       and g = "snd (add_node_by_path left_only (Some 0) ''LL'' 4 False)" and w = 9,
      THEN conjunct2, THEN conjunct2, THEN conjunct2] cl ok
  have twice: "add_node_by_path (snd (add_node_by_path left_only (Some 0) ''LL'' 4 False))
         (Some 0) ''LL'' 9 False
       = (Inl DuplicateNodeError, snd (add_node_by_path left_only (Some 0) ''LL'' 4 False))"
    by blast
  from dup rng same okf twice show ?thesis by blast
qed

section \<open>Deleting the root\<close>

text \<open>
  Claim C6. When the value of the root equals the value to delete, \<open>delete_node\<close>
  returns \<open>None\<close> as the new root, whatever the root's \<open>left\<close>, \<open>right\<close> and
  \<open>children\<close> are; nothing is spliced in and no object is written.
\<close>

theorem delete_node_root_returns_None:
  "nvalue (h ! r) = v \<Longrightarrow> delete_node h (Some r) v = Some (Inr None, h)"
  by (simp add: delete_node_def)

theorem delete_node_root_returns_None_witness:
  "nvalue ([\<lparr>nvalue = 1 :: int, left = Some 1, right = Some 2, children = [Some 1, Some 2]\<rparr>,
            \<lparr>nvalue = 2, left = None, right = None, children = []\<rparr>,
            \<lparr>nvalue = 3, left = None, right = None, children = []\<rparr>] ! 0) = 1
   \<and> delete_node
        [\<lparr>nvalue = 1 :: int, left = Some 1, right = Some 2, children = [Some 1, Some 2]\<rparr>,
         \<lparr>nvalue = 2, left = None, right = None, children = []\<rparr>,
         \<lparr>nvalue = 3, left = None, right = None, children = []\<rparr>] (Some 0) 1
       = Some (Inr None,
        [\<lparr>nvalue = 1 :: int, left = Some 1, right = Some 2, children = [Some 1, Some 2]\<rparr>,
         \<lparr>nvalue = 2, left = None, right = None, children = []\<rparr>,
         \<lparr>nvalue = 3, left = None, right = None, children = []\<rparr>])"
  using delete_node_root_returns_None
    [of "[\<lparr>nvalue = 1 :: int, left = Some 1, right = Some 2, children = [Some 1, Some 2]\<rparr>,
          \<lparr>nvalue = 2, left = None, right = None, children = []\<rparr>,
          \<lparr>nvalue = 3, left = None, right = None, children = []\<rparr>]" 0 1]
  by simp

section \<open>General-mode insertion is append-only\<close>

lemma split_no_sep: "sep \<notin> set s \<Longrightarrow> split sep s = [s]"
  by (induction s) auto

lemma unsigned_limit:
  "max_str_digits < length (filter (\<lambda>c. c \<noteq> CHR ''_'') s) \<Longrightarrow> unsigned s = None"
  by (cases s) (auto simp: unsigned_def split: option.splits)

lemma py_int_zeros:
  assumes "max_str_digits < n"
  shows "py_int (replicate n CHR ''0'') = None"
proof -
  from assms obtain m where n: "n = Suc m" by (cases n) simp_all
  let ?s = "CHR ''0'' # replicate m CHR ''0''"
  have eq: "replicate n CHR ''0'' = ?s" by (simp add: n)
  have sp: "\<not> is_space CHR ''0''" by (simp add: is_space_def)
  then have "strip (replicate n CHR ''0'') = replicate n CHR ''0''"
    by (simp add: strip_def dropWhile_replicate)
  then have st: "strip ?s = ?s" by (simp only: eq)
  have "unsigned (replicate n CHR ''0'') = None"
    using assms by (intro unsigned_limit) simp
  then have u: "unsigned ?s = None" by (simp only: eq)
  have "py_int ?s = None" by (simp add: py_int_def st u)
  then show ?thesis by (simp only: eq)
qed

lemma long_zeros_split: "split CHR ''-'' long_zeros = [long_zeros]"
  unfolding long_zeros_def by (rule split_no_sep) simp

lemma long_zeros_int: "py_int long_zeros = None"
  unfolding long_zeros_def by (rule py_int_zeros) (simp add: max_str_digits_def)

lemma long_zeros_nonempty: "long_zeros \<noteq> []"
  unfolding long_zeros_def by simp

text \<open>
  Claim C7. Let the walk over all but the last index of a general-mode path end at an
  object \<open>p\<close> of the store. The insert succeeds exactly when the last token is an integer
  literal (as \<open>int\<close> accepts it, so of at most 4300 digits) equal to \<open>len(p.children)\<close>;
  then the new object is the last entry of \<open>p.children\<close>. Any other integer fails with
  \<open>IndexOutOfRangeError\<close>, and a last token that \<open>int\<close> rejects fails with
  \<open>InvalidPathError\<close>. On a node with two children the final index \<open>2\<close> succeeds and
  \<open>5\<close> fails.
\<close>

theorem general_insert_append_only:
  assumes path: "path \<noteq> []"
    and nav: "navigate_general h (Some root) (butlast (split CHR ''-'' path)) = Inr (Some p)"
    and p: "p < length h"
  shows "(fst (add_node_by_path h (Some root) path v True) = Inr (Some root)
            \<longleftrightarrow> py_int (last (split CHR ''-'' path)) = Some (int (length (children (h ! p)))))
       \<and> (py_int (last (split CHR ''-'' path)) = Some (int (length (children (h ! p))))
            \<longrightarrow> snd (add_node_by_path h (Some root) path v True)
                  = (h @ [Node_init v])[p := add_child (h ! p) (length h)]
              \<and> children (snd (add_node_by_path h (Some root) path v True) ! p)
                  = children (h ! p) @ [Some (length h)]
              \<and> snd (add_node_by_path h (Some root) path v True) ! length h = Node_init v)
       \<and> (\<forall>k. py_int (last (split CHR ''-'' path)) = Some k
                 \<and> k \<noteq> int (length (children (h ! p)))
            \<longrightarrow> fst (add_node_by_path h (Some root) path v True) = Inl IndexOutOfRangeError)
       \<and> (py_int (last (split CHR ''-'' path)) = None
            \<longrightarrow> fst (add_node_by_path h (Some root) path v True) = Inl InvalidPathError)"
proof -
  have ch: "children (add_child (h ! p) (length h)) = children (h ! p) @ [Some (length h)]"
    by (simp add: add_child_def Let_def)
  show ?thesis
    using path nav p ch
    by (auto simp: add_node_by_path_def add_general_def Node_def Let_def nth_append
        split: option.splits)
qed

theorem general_insert_append_only_witness:
  "fst (add_node_by_path two_children (Some 0) ''2'' 20 True) = Inr (Some 0)
   \<and> children (snd (add_node_by_path two_children (Some 0) ''2'' 20 True) ! 0)
       = [Some 1, Some 2, Some 3]
   \<and> fst (add_node_by_path two_children (Some 0) ''5'' 20 True) = Inl IndexOutOfRangeError
   \<and> fst (add_node_by_path two_children (Some 0) long_zeros 20 True) = Inl InvalidPathError"
proof -
  have tc: "two_children =
      [\<lparr>nvalue = 10, left = Some 1, right = Some 2, children = [Some 1, Some 2]\<rparr>,
       \<lparr>nvalue = 5, left = None, right = None, children = []\<rparr>,
       \<lparr>nvalue = 15, left = None, right = None, children = []\<rparr>]"
    by code_simp
  have nav2: "navigate_general two_children (Some 0) (butlast (split CHR ''-'' ''2'')) = Inr (Some 0)"
    by simp
  have nav5: "navigate_general two_children (Some 0) (butlast (split CHR ''-'' ''5'')) = Inr (Some 0)"
    by simp
  have navz: "navigate_general two_children (Some 0) (butlast (split CHR ''-'' long_zeros))
                = Inr (Some 0)"
    by (simp add: long_zeros_split)
  have len: "0 < length two_children" by (simp add: tc)
  have i2: "py_int ''2'' = Some 2" by code_simp
  have i5: "py_int ''5'' = Some 5" by code_simp
  have iz: "py_int (last (split CHR ''-'' long_zeros)) = None"
    by (simp add: long_zeros_split long_zeros_int)
  have c: "children (two_children ! 0) = [Some 1, Some 2]" "length two_children = 3"
    by (simp_all add: tc)
  from general_insert_append_only [OF long_zeros_nonempty navz len, of 20] iz
  have z: "fst (add_node_by_path two_children (Some 0) long_zeros 20 True) = Inl InvalidPathError"
    by blast
  have "fst (add_node_by_path two_children (Some 0) ''2'' 20 True) = Inr (Some 0)
   \<and> children (snd (add_node_by_path two_children (Some 0) ''2'' 20 True) ! 0)
       = [Some 1, Some 2, Some 3]
   \<and> fst (add_node_by_path two_children (Some 0) ''5'' 20 True) = Inl IndexOutOfRangeError"
    using general_insert_append_only [OF _ nav2 len, of 20]
          general_insert_append_only [OF _ nav5 len, of 20]
    by (simp add: i2 i5 c add_child_def)
  with z show ?thesis by blast
qed

section \<open>The frame of a deletion\<close>

lemma scan_children_Match:
  "scan_children h cs i v q = Inr (Match j) \<Longrightarrow>
     \<exists>k c. k < length cs \<and> j = i + k \<and> cs ! k = Some c \<and> nvalue (h ! c) = v"
proof (induction cs arbitrary: i q)
  case Nil
  then show ?case by simp
next
  case (Cons child rest)
  show ?case
  proof (cases child)
    case None
    with Cons.prems show ?thesis by simp
  next
    case (Some c)
    show ?thesis
    proof (cases "nvalue (h ! c) = v")
      case True
      with Cons.prems Some have "j = i" by simp
      with True Some show ?thesis by (intro exI [of _ 0] exI [of _ c]) simp
    next
      case False
      with Cons.prems Some have "scan_children h rest (Suc i) v (q @ [c]) = Inr (Match j)"
        by simp
      from Cons.IH [OF this] obtain k c' where
        "k < length rest" "j = Suc i + k" "rest ! k = Some c'" "nvalue (h ! c') = v"
        by blast
      then show ?thesis by (intro exI [of _ "Suc k"] exI [of _ c']) simp
    qed
  qed
qed

lemma pop_child_nvalue: "nvalue (pop_child n i) = nvalue n"
  by (simp add: pop_child_def Let_def)

lemma pop_child_children:
  "children (pop_child n i) = take i (children n) @ drop (Suc i) (children n)"
  by (simp add: pop_child_def Let_def)

lemma pop_child_neq: "i < length (children n) \<Longrightarrow> pop_child n i \<noteq> n"
proof
  assume i: "i < length (children n)" and eq: "pop_child n i = n"
  have "length (children (pop_child n i)) < length (children n)"
    using i by (simp add: pop_child_children)
  with eq show False by simp
qed

lemma write_removed_under:
  assumes "n \<noteq> h ! p" "nvalue n = nvalue (h ! p)" "nvalue (h ! c) = v"
    "Some c \<in> set (children (h ! p)) \<or> left (h ! p) = Some c \<or> right (h ! p) = Some c"
  shows "h[p := n] = h \<or> removed_under h (h[p := n]) p v"
proof (cases "p < length h")
  case True
  with assms show ?thesis unfolding removed_under_def by auto
next
  case False
  then show ?thesis by (simp add: list_update_beyond)
qed

lemma delete_loop_frame:
  assumes "delete_loop h root queue v = Some out"
  shows "(fst out = Inr (Some root) \<or> (\<exists>e. fst out = Inl e \<and> snd out = h))
     \<and> (snd out = h \<or> (\<exists>p. removed_under h (snd out) p v))"
proof (rule delete_loop.raw_induct
    [where P = "\<lambda>h root queue v out.
       (fst out = Inr (Some root) \<or> (\<exists>e. fst out = Inl e \<and> snd out = h))
       \<and> (snd out = h \<or> (\<exists>p. removed_under h (snd out) p v))", OF _ assms], goal_cases)
  case (1 f h root queue v out)
  show ?case
  proof (cases queue)
    case Nil
    with 1(2) show ?thesis by auto
  next
    case (Cons current rest)
    let ?n = "h ! current"
    show ?thesis
    proof (cases "scan_children h (children ?n) 0 v rest")
      case (Inl e)
      with 1(2) Cons show ?thesis by auto
    next
      case (Inr s)
      show ?thesis
      proof (cases s)
        case (Match i)
        from scan_children_Match [OF Inr [unfolded Match]]
        obtain c where i: "i < length (children ?n)"
          and c: "children ?n ! i = Some c" "nvalue (h ! c) = v"
          by auto
        from i c have mem: "Some c \<in> set (children ?n)"
          by (metis nth_mem)
        from 1(2) Cons Inr Match
        have res: "fst out = Inr (Some root)" "snd out = h[current := pop_child ?n i]"
          by auto
        from write_removed_under [of "pop_child ?n i" h current c v]
          pop_child_neq [OF i] pop_child_nvalue c mem res
        show ?thesis by auto
      next
        case (NoMatch queue1)
        show ?thesis
        proof (cases "length (children ?n) = 0")
          case False
          with 1(2) Cons Inr NoMatch
          have "f h root queue1 v = Some out" by simp
          from 1(1) [OF this] show ?thesis .
        next
          case True
          show ?thesis
          proof (cases "case left ?n of None \<Rightarrow> False | Some l \<Rightarrow> nvalue (h ! l) = v")
            case l: True
            then obtain c where c: "left ?n = Some c" "nvalue (h ! c) = v"
              by (auto split: option.splits)
            from 1(2) Cons Inr NoMatch True l
            have res: "fst out = Inr (Some root)" "snd out = h[current := ?n\<lparr>left := None\<rparr>]"
              by auto
            have "left (?n\<lparr>left := None\<rparr>) \<noteq> left ?n"
              using c(1) by simp
            then have "?n\<lparr>left := None\<rparr> \<noteq> ?n" by metis
            from write_removed_under [of "?n\<lparr>left := None\<rparr>" h current c v] this c res
            show ?thesis by auto
          next
            case l: False
            show ?thesis
            proof (cases "case right ?n of None \<Rightarrow> False | Some r \<Rightarrow> nvalue (h ! r) = v")
              case r: True
              then obtain c where c: "right ?n = Some c" "nvalue (h ! c) = v"
                by (auto split: option.splits)
              from 1(2) Cons Inr NoMatch True l r
              have res: "fst out = Inr (Some root)" "snd out = h[current := ?n\<lparr>right := None\<rparr>]"
                by auto
              have "right (?n\<lparr>right := None\<rparr>) \<noteq> right ?n"
                using c(1) by simp
              then have "?n\<lparr>right := None\<rparr> \<noteq> ?n" by metis
              from write_removed_under [of "?n\<lparr>right := None\<rparr>" h current c v] this c res
              show ?thesis by auto
            next
              case r: False
              with 1(2) Cons Inr NoMatch True l
              have "f h root (queue1 @ opt_list (left ?n) @ opt_list (right ?n)) v = Some out"
                by simp
              from 1(1) [OF this] show ?thesis .
            qed
          qed
        qed
      qed
    qed
  qed
qed

text \<open>
  Claim C10. Whenever \<open>delete_node\<close> returns and has changed the store (a node other than
  the root was removed), it returns the root it was given, no object was added or
  dropped, and exactly one object \<open>p\<close> differs from before: it keeps its value, every
  other object keeps all of its fields, and \<open>p\<close> was the parent of a node of the deleted
  value (through \<open>children\<close>, \<open>left\<close> or \<open>right\<close>).
\<close>

theorem delete_frame:
  assumes run: "delete_node h (Some r) v = Some (res, h')" and changed: "h' \<noteq> h"
  shows "res = Inr (Some r) \<and> length h' = length h
     \<and> (\<exists>p c. p < length h \<and> h' ! p \<noteq> h ! p \<and> nvalue (h' ! p) = nvalue (h ! p)
            \<and> (\<forall>a. a \<noteq> p \<longrightarrow> h' ! a = h ! a)
            \<and> nvalue (h ! c) = v
            \<and> (Some c \<in> set (children (h ! p)) \<or> left (h ! p) = Some c
                 \<or> right (h ! p) = Some c))"
proof -
  from run changed have loop: "delete_loop h r [r] v = Some (res, h')"
    by (auto simp: delete_node_def split: if_splits)
  from delete_loop_frame [OF loop] changed
  obtain p where res: "res = Inr (Some r)" and p: "removed_under h h' p v"
    by auto
  from p have upd: "h' = h[p := h' ! p]" by (simp add: removed_under_def)
  have len: "length h' = length h" by (subst upd) simp
  have other: "\<forall>a. a \<noteq> p \<longrightarrow> h' ! a = h ! a"
  proof (intro allI impI)
    fix a assume "a \<noteq> p"
    then show "h' ! a = h ! a" by (subst upd) simp
  qed
  from p res len other show ?thesis
    unfolding removed_under_def by blast
qed

theorem delete_frame_witness:
  "delete_node left_and_right (Some 0) 15 =
     Some (Inr (Some 0),
       [\<lparr>nvalue = 10, left = Some 1, right = None, children = [Some 1]\<rparr>,
        \<lparr>nvalue = 5, left = None, right = None, children = []\<rparr>,
        \<lparr>nvalue = 15, left = None, right = None, children = []\<rparr>])
   \<and> [\<lparr>nvalue = 10, left = Some 1, right = None, children = [Some 1]\<rparr>,
        \<lparr>nvalue = 5, left = None, right = None, children = []\<rparr>,
        \<lparr>nvalue = 15, left = None, right = None, children = []\<rparr>] \<noteq> left_and_right
   \<and> length [\<lparr>nvalue = 10 :: int, left = Some 1, right = None, children = [Some 1]\<rparr>,
        \<lparr>nvalue = 5, left = None, right = None, children = []\<rparr>,
        \<lparr>nvalue = 15, left = None, right = None, children = []\<rparr>] = length left_and_right"
proof -
  have run: "delete_node left_and_right (Some 0) 15 =
     Some (Inr (Some 0),
       [\<lparr>nvalue = 10, left = Some 1, right = None, children = [Some 1]\<rparr>,
        \<lparr>nvalue = 5, left = None, right = None, children = []\<rparr>,
        \<lparr>nvalue = 15, left = None, right = None, children = []\<rparr>])"
    by code_simp
  have neq: "[\<lparr>nvalue = 10, left = Some 1, right = None, children = [Some 1]\<rparr>,
        \<lparr>nvalue = 5, left = None, right = None, children = []\<rparr>,
        \<lparr>nvalue = 15, left = None, right = None, children = []\<rparr>] \<noteq> left_and_right"
    by code_simp
  from delete_frame [OF run neq] run neq show ?thesis by blast
qed

section \<open>Trees built from a document\<close>

lemma grown_refl: "grown h h"
  by (auto simp: grown_def)

lemma grown_trans: "grown h1 h2 \<Longrightarrow> grown h2 h3 \<Longrightarrow> grown h1 h3"
  unfolding grown_def
proof (intro conjI allI impI)
  assume g: "length h1 \<le> length h2 \<and> (\<forall>a<length h1. h2 ! a = h1 ! a) \<and>
      (\<forall>a. length h1 \<le> a \<and> a < length h2 \<longrightarrow> children (h2 ! a) = [])"
    "length h2 \<le> length h3 \<and> (\<forall>a<length h2. h3 ! a = h2 ! a) \<and>
      (\<forall>a. length h2 \<le> a \<and> a < length h3 \<longrightarrow> children (h3 ! a) = [])"
  then show "length h1 \<le> length h3" by simp
  fix a
  { assume "a < length h1"
    with g show "h3 ! a = h1 ! a" by simp }
  { assume a: "length h1 \<le> a \<and> a < length h3"
    show "children (h3 ! a) = []"
    proof (cases "a < length h2")
      case True
      with g a have "h3 ! a = h2 ! a" "children (h2 ! a) = []" by simp_all
      then show ?thesis by simp
    next
      case False
      with g a show ?thesis by simp
    qed }
qed

lemma grown_alloc: "grown h (h @ [Node_init v])"
  by (auto simp: grown_def nth_append Node_init_def)

lemma grown_store:
  assumes g: "grown h h'" and a: "length h \<le> a" and n: "children n = children (h' ! a)"
  shows "grown h (h'[a := n])"
  unfolding grown_def
proof (intro conjI allI impI)
  from g show "length h \<le> length (h'[a := n])" by (simp add: grown_def)
next
  fix b assume "b < length h"
  with a g show "h'[a := n] ! b = h ! b" by (simp add: grown_def)
next
  fix b assume b: "length h \<le> b \<and> b < length (h'[a := n])"
  with g have "children (h' ! b) = []" by (simp add: grown_def)
  with b n show "children (h'[a := n] ! b) = []"
    by (cases "b = a") simp_all
qed

lemma dict_to_tree_grown:
  "grown h (snd (dict_to_tree h d))
   \<and> (case fst (dict_to_tree h d) of
         None \<Rightarrow> snd (dict_to_tree h d) = h
       | Some a \<Rightarrow> a = length h \<and> a < length (snd (dict_to_tree h d)))"
proof (induction h d rule: dict_to_tree.induct)
  case (1 h)
  show ?case by (simp add: grown_refl)
next
  case (2 h x)
  show ?case by (simp add: grown_refl)
next
  case (3 h kvs)
  show ?case
  proof (cases "map_of kvs ''value''")
    case None
    then show ?thesis by (simp add: grown_refl)
  next
    case (Some v)
    define root where "root = length h"
    define h1 where "h1 = h @ [Node_init v]"
    define h2 where "h2 =
      (case map_of kvs ''left'' of
         None \<Rightarrow> h1
       | Some dl \<Rightarrow> (case dict_to_tree h1 dl of (l, h') \<Rightarrow> h'[root := (h' ! root)\<lparr>left := l\<rparr>]))"
    define h3 where "h3 =
      (case map_of kvs ''right'' of
         None \<Rightarrow> h2
       | Some dr \<Rightarrow> (case dict_to_tree h2 dr of (r, h') \<Rightarrow> h'[root := (h' ! root)\<lparr>right := r\<rparr>]))"
    have res: "dict_to_tree h (PDict kvs) = (Some root, h3)"
      unfolding h3_def h2_def h1_def root_def by (simp add: Some Node_def Let_def)
    have nd: "(root, h1) = Node h v" by (simp add: Node_def root_def h1_def)
    have g1: "grown h h1" unfolding h1_def by (rule grown_alloc)
    have s2: "grown h h2 \<and> length h1 \<le> length h2"
    proof (cases "map_of kvs ''left''")
      case None
      with g1 show ?thesis by (simp add: h2_def)
    next
      case (Some dl)
      obtain l hL where run: "dict_to_tree h1 dl = (l, hL)" by (cases "dict_to_tree h1 dl")
      from "3.IH"(1) [OF \<open>map_of kvs ''value'' = Some v\<close> nd Some] run
      have gL: "grown h1 hL" by simp
      with g1 have "grown h hL" by (rule grown_trans)
      then have "grown h (hL[root := (hL ! root)\<lparr>left := l\<rparr>])"
        by (rule grown_store) (simp_all add: root_def)
      with Some run gL show ?thesis by (simp add: h2_def grown_def)
    qed
    have s3: "grown h h3 \<and> length h2 \<le> length h3"
    proof (cases "map_of kvs ''right''")
      case None
      with s2 show ?thesis by (simp add: h3_def)
    next
      case (Some dr)
      obtain r hR where run: "dict_to_tree h2 dr = (r, hR)" by (cases "dict_to_tree h2 dr")
      from "3.IH"(2) [OF \<open>map_of kvs ''value'' = Some v\<close> nd h2_def Some] run
      have gR: "grown h2 hR" by simp
      with s2 have "grown h hR" by (blast intro: grown_trans)
      then have "grown h (hR[root := (hR ! root)\<lparr>right := r\<rparr>])"
        by (rule grown_store) (simp_all add: root_def)
      with Some run gR show ?thesis by (simp add: h3_def grown_def)
    qed
    from s2 s3 have "root < length h3" by (simp add: h1_def root_def)
    with s3 res show ?thesis by (simp add: root_def)
  qed
qed

text \<open>
  Claim C9. Every object that \<open>_dict_to_tree\<close> constructs has an empty \<open>children\<close> list,
  for any document; the objects that existed before are untouched, and a returned root
  is the first new object. Only \<open>left\<close>/\<open>right\<close> of the new objects are ever written, so
  there is no \<open>children[0]\<close> to alias \<open>left\<close>, and \<open>find_loop\<close> takes its
  \<open>left\<close>/\<open>right\<close> branch on each of them.
\<close>

theorem dict_to_tree_children_empty:
  assumes "dict_to_tree h d = (r, h')"
  shows "length h \<le> length h' \<and> (\<forall>a. a < length h \<longrightarrow> h' ! a = h ! a)
     \<and> (\<forall>a. length h \<le> a \<and> a < length h' \<longrightarrow> children (h' ! a) = [])
     \<and> (r = None \<longrightarrow> h' = h)
     \<and> (\<forall>a. r = Some a \<longrightarrow> a = length h \<and> a < length h')"
  using dict_to_tree_grown [of h d] assms
  by (auto simp: grown_def split: option.splits)

theorem dict_to_tree_children_empty_witness:
  "dict_to_tree [] doc_example =
     (Some 0,
      [\<lparr>nvalue = PAtom 1, left = Some 1, right = None, children = []\<rparr>,
       \<lparr>nvalue = PAtom 2, left = None, right = Some 2, children = []\<rparr>,
       \<lparr>nvalue = PDict [], left = None, right = None, children = []\<rparr>])
   \<and> children (snd (dict_to_tree [] doc_example) ! 0) = []
   \<and> children (snd (dict_to_tree [] doc_example) ! 1) = []
   \<and> children (snd (dict_to_tree [] doc_example) ! 2) = []"
proof -
  have run: "dict_to_tree [] doc_example =
     (Some 0,
      [\<lparr>nvalue = PAtom 1, left = Some 1, right = None, children = []\<rparr>,
       \<lparr>nvalue = PAtom 2, left = None, right = Some 2, children = []\<rparr>,
       \<lparr>nvalue = PDict [], left = None, right = None, children = []\<rparr>])"
    by code_simp
  from dict_to_tree_children_empty [OF run]
  have "\<forall>a. a < 3 \<longrightarrow> children (snd (dict_to_tree [] doc_example) ! a) = []"
    by (simp add: run)
  then have "children (snd (dict_to_tree [] doc_example) ! 0) = []"
    "children (snd (dict_to_tree [] doc_example) ! 1) = []"
    "children (snd (dict_to_tree [] doc_example) ! 2) = []"
    by simp_all
  with run show ?thesis by simp
qed

section \<open>Round trip through the document form\<close>

lemma shape_from_frame:
  "shape_from k h r s \<Longrightarrow> length h \<le> length h' \<Longrightarrow>
     (\<forall>a. k \<le> a \<and> a < length h \<longrightarrow> h' ! a = h ! a) \<Longrightarrow> shape_from k h' r s"
proof (induction k h r s rule: shape_from.induct)
  case (2 k h a v l r)
  then have eq: "h' ! a = h ! a" and a: "k \<le> a" "a < length h'" by auto
  from 2 show ?case by (simp add: eq a)
qed simp_all

lemma shape_from_mono:
  "shape_from k h r s \<Longrightarrow> k' \<le> k \<Longrightarrow> shape_from k' h r s"
  by (induction k h r s rule: shape_from.induct) simp_all

text \<open>
  A root has at most one shape, so two trees with a common shape are equal under
  value-and-shape comparison.
\<close>

lemma shape_from_unique:
  "shape_from k h r s \<Longrightarrow> shape_from k h r s' \<Longrightarrow> s = s'"
proof (induction k h r s arbitrary: s' rule: shape_from.induct)
  case (1 k h)
  then show ?case by (cases s') simp_all
next
  case (2 k h a v l r)
  from 2(4) obtain v' l' r' where s': "s' = Some (Shape v' l' r')"
    by (cases s') (simp, metis shape.exhaust)
  from 2(3) 2(4) s' have "v' = v" "shape_from k h (left (h ! a)) l'"
    "shape_from k h (right (h ! a)) r'" "shape_from k h (left (h ! a)) l"
    "shape_from k h (right (h ! a)) r"
    by simp_all
  with 2(1) [of l'] 2(2) [of r'] s' show ?case by simp
qed simp_all

lemma map_of_doc_of:
  "doc_of (Shape v l r) = PDict kvs \<Longrightarrow>
     map_of kvs ''value'' = Some v \<and> map_of kvs ''left'' = map_option doc_of l
     \<and> map_of kvs ''right'' = map_option doc_of r"
  by (cases l; cases r) (auto simp: update_conv')

lemma tree_to_dict_shape:
  "shape_from k h (Some a) (Some s) \<Longrightarrow> tree_to_dict h (Some a) = Some (doc_of s)"
proof (induction s arbitrary: a)
  case (Shape v l r)
  from Shape.prems have v: "nvalue (h ! a) = v"
    and sl: "shape_from k h (left (h ! a)) l" and sr: "shape_from k h (right (h ! a)) r"
    by simp_all
  have L: "\<And>la. left (h ! a) = Some la \<Longrightarrow>
             \<exists>ls. l = Some ls \<and> tree_to_dict h (Some la) = Some (doc_of ls)"
  proof -
    fix la assume la: "left (h ! a) = Some la"
    with sl obtain ls where ls: "l = Some ls" by (cases l) simp_all
    with sl la have "shape_from k h (Some la) (Some ls)" by simp
    from Shape.IH(1) [OF _ this] ls
    show "\<exists>ls. l = Some ls \<and> tree_to_dict h (Some la) = Some (doc_of ls)"
      by simp
  qed
  have R: "\<And>ra. right (h ! a) = Some ra \<Longrightarrow>
             \<exists>rs. r = Some rs \<and> tree_to_dict h (Some ra) = Some (doc_of rs)"
  proof -
    fix ra assume ra: "right (h ! a) = Some ra"
    with sr obtain rs where rs: "r = Some rs" by (cases r) simp_all
    with sr ra have "shape_from k h (Some ra) (Some rs)" by simp
    from Shape.IH(2) [OF _ this] rs
    show "\<exists>rs. r = Some rs \<and> tree_to_dict h (Some ra) = Some (doc_of rs)"
      by simp
  qed
  have Ln: "left (h ! a) = None \<Longrightarrow> l = None" using sl by (cases l) simp_all
  have Rn: "right (h ! a) = None \<Longrightarrow> r = None" using sr by (cases r) simp_all
  show ?case
  proof (cases "left (h ! a)"; cases "right (h ! a)")
    fix la ra assume "left (h ! a) = Some la" "right (h ! a) = Some ra"
    with L [of la] R [of ra] v show ?thesis
      by (subst tree_to_dict.simps) auto
  next
    fix la assume "left (h ! a) = Some la" "right (h ! a) = None"
    with L [of la] Rn v show ?thesis
      by (subst tree_to_dict.simps) auto
  next
    fix ra assume "left (h ! a) = None" "right (h ! a) = Some ra"
    with Ln R [of ra] v show ?thesis
      by (subst tree_to_dict.simps) auto
  next
    assume "left (h ! a) = None" "right (h ! a) = None"
    with Ln Rn v show ?thesis
      by (subst tree_to_dict.simps) auto
  qed
qed

lemma dict_to_tree_doc_of:
  "\<exists>h'. dict_to_tree h (doc_of s) = (Some (length h), h') \<and> length h < length h'
        \<and> (\<forall>a<length h. h' ! a = h ! a)
        \<and> shape_from (length h) h' (Some (length h)) (Some s)"
proof (induction s arbitrary: h)
  case (Shape v l r)
  obtain kvs where kvs: "doc_of (Shape v l r) = PDict kvs" by simp
  from map_of_doc_of [OF kvs]
  have mv: "map_of kvs ''value'' = Some v"
    and ml: "map_of kvs ''left'' = map_option doc_of l"
    and mr: "map_of kvs ''right'' = map_option doc_of r"
    by simp_all
  define root where "root = length h"
  define h1 where "h1 = h @ [Node_init v]"
  define h2 where "h2 =
    (case map_of kvs ''left'' of
       None \<Rightarrow> h1
     | Some dl \<Rightarrow> (case dict_to_tree h1 dl of (l, h') \<Rightarrow> h'[root := (h' ! root)\<lparr>left := l\<rparr>]))"
  define h3 where "h3 =
    (case map_of kvs ''right'' of
       None \<Rightarrow> h2
     | Some dr \<Rightarrow> (case dict_to_tree h2 dr of (r, h') \<Rightarrow> h'[root := (h' ! root)\<lparr>right := r\<rparr>]))"
  have res: "dict_to_tree h (PDict kvs) = (Some root, h3)"
    unfolding h3_def h2_def h1_def root_def by (simp add: mv Node_def Let_def)
  have r1: "root < length h1" "h1 ! root = Node_init v" "length h1 = Suc (length h)"
    by (simp_all add: root_def h1_def)
  have p1: "\<forall>a<length h. h1 ! a = h ! a" by (simp add: h1_def nth_append)
  have s2: "length h1 \<le> length h2 \<and> (\<forall>a<length h. h2 ! a = h ! a)
      \<and> nvalue (h2 ! root) = v \<and> right (h2 ! root) = None
      \<and> shape_from (length h1) h2 (left (h2 ! root)) l"
  proof (cases l)
    case None
    with ml have "h2 = h1" by (simp add: h2_def)
    with None r1 p1 show ?thesis by (simp add: Node_init_def)
  next
    case (Some ls)
    from Shape.IH(1) [of ls h1] Some obtain hL where
      run: "dict_to_tree h1 (doc_of ls) = (Some (length h1), hL)"
      and len: "length h1 < length hL"
      and pre: "\<forall>a<length h1. hL ! a = h1 ! a"
      and sh: "shape_from (length h1) hL (Some (length h1)) (Some ls)"
      by auto
    from ml Some run have h2: "h2 = hL[root := (hL ! root)\<lparr>left := Some (length h1)\<rparr>]"
      by (simp add: h2_def)
    from pre r1 have at: "hL ! root = Node_init v" by simp
    have fr: "\<forall>a. length h1 \<le> a \<and> a < length hL \<longrightarrow> h2 ! a = hL ! a"
      using r1 by (auto simp: h2)
    have "shape_from (length h1) h2 (Some (length h1)) (Some ls)"
      by (rule shape_from_frame [OF sh _ fr]) (simp add: h2)
    moreover have "h2 ! root = (Node_init v)\<lparr>left := Some (length h1)\<rparr>"
      using r1 len at by (simp add: h2)
    moreover have "\<forall>a<length h. h2 ! a = h ! a"
      using pre p1 r1 by (auto simp: h2 root_def)
    moreover have "length h1 \<le> length h2" using len by (simp add: h2)
    ultimately show ?thesis using Some by (simp add: Node_init_def)
  qed
  have s3: "length h2 \<le> length h3 \<and> (\<forall>a<length h. h3 ! a = h ! a)
      \<and> nvalue (h3 ! root) = v
      \<and> shape_from (length h1) h3 (left (h3 ! root)) l
      \<and> shape_from (length h1) h3 (right (h3 ! root)) r"
  proof (cases r)
    case None
    with mr have "h3 = h2" by (simp add: h3_def)
    with None s2 show ?thesis by simp
  next
    case (Some rs)
    from Shape.IH(2) [of rs h2] Some obtain hR where
      run: "dict_to_tree h2 (doc_of rs) = (Some (length h2), hR)"
      and len: "length h2 < length hR"
      and pre: "\<forall>a<length h2. hR ! a = h2 ! a"
      and sh: "shape_from (length h2) hR (Some (length h2)) (Some rs)"
      by auto
    from mr Some run have h3: "h3 = hR[root := (hR ! root)\<lparr>right := Some (length h2)\<rparr>]"
      by (simp add: h3_def)
    from s2 r1 have rt: "root < length h2" by simp
    with pre have at: "hR ! root = h2 ! root" by simp
    have at3: "h3 ! root = (h2 ! root)\<lparr>right := Some (length h2)\<rparr>"
      using rt len at by (simp add: h3)
    have frR: "\<forall>a. length h1 \<le> a \<and> a < length hR \<longrightarrow> h3 ! a = hR ! a"
      using r1 by (auto simp: h3)
    have fr2: "\<forall>a. length h1 \<le> a \<and> a < length h2 \<longrightarrow> h3 ! a = h2 ! a"
      using frR pre len by auto
    have shl: "shape_from (length h1) h3 (left (h2 ! root)) l"
    proof (rule shape_from_frame [OF _ _ fr2])
      from s2 show "shape_from (length h1) h2 (left (h2 ! root)) l" by simp
      from len show "length h2 \<le> length h3" by (simp add: h3)
    qed
    have "shape_from (length h1) hR (Some (length h2)) (Some rs)"
      using s2 by (intro shape_from_mono [OF sh]) simp
    then have shr: "shape_from (length h1) h3 (Some (length h2)) (Some rs)"
      by (rule shape_from_frame [OF _ _ frR]) (simp add: h3)
    have "\<forall>a<length h. h3 ! a = h ! a"
    proof (intro allI impI)
      fix a assume a: "a < length h"
      with s2 r1 have "a < length h2" "a \<noteq> root" by (simp_all add: root_def)
      with pre have "h3 ! a = h2 ! a" by (simp add: h3)
      with s2 a show "h3 ! a = h ! a" by simp
    qed
    moreover have "length h2 \<le> length h3" using len by (simp add: h3)
    ultimately show ?thesis using Some s2 shl shr at3 by simp
  qed
  from s2 s3 r1 have lt: "root < length h3" "length h < length h3" by (simp_all add: root_def)
  have le: "length h \<le> length h1" by (simp add: r1)
  from s3 have "shape_from (length h) h3 (left (h3 ! root)) l"
    "shape_from (length h) h3 (right (h3 ! root)) r"
    by (auto intro: shape_from_mono [OF _ le])
  with s3 lt have "shape_from (length h) h3 (Some root) (Some (Shape v l r))"
    by (simp add: root_def)
  with res kvs s3 lt show ?case by (simp add: root_def)
qed

text \<open>
  Claim C8. \<open>_tree_to_dict\<close> of an absent root is \<open>None\<close>. For a tree whose
  \<open>left\<close>/\<open>right\<close> links from the root unfold to a finite shape \<open>s\<close> (whatever its
  \<open>children\<close> lists hold), \<open>_tree_to_dict\<close> returns a document, and \<open>_dict_to_tree\<close> of
  that document returns a root, made of fresh objects only, whose \<open>left\<close>/\<open>right\<close> links
  unfold to the same shape \<open>s\<close>: the same values in the same positions. The original tree
  still has its shape afterwards.
\<close>

theorem document_round_trip:
  "tree_to_dict h None = Some PNone
   \<and> (has_shape h (Some a) (Some s) \<longrightarrow>
        (\<exists>d a' h'. tree_to_dict h (Some a) = Some d
            \<and> dict_to_tree h d = (Some a', h')
            \<and> has_shape h' (Some a') (Some s)
            \<and> shape_from (length h) h' (Some a') (Some s)
            \<and> has_shape h' (Some a) (Some s)))"
proof (intro conjI impI)
  show "tree_to_dict h None = Some PNone"
    by (subst tree_to_dict.simps) simp
next
  assume sh: "has_shape h (Some a) (Some s)"
  then have td: "tree_to_dict h (Some a) = Some (doc_of s)"
    unfolding has_shape_def by (rule tree_to_dict_shape)
  from dict_to_tree_doc_of [of h s] obtain h' where
    run: "dict_to_tree h (doc_of s) = (Some (length h), h')"
    and len: "length h < length h'"
    and pre: "\<forall>a<length h. h' ! a = h ! a"
    and new: "shape_from (length h) h' (Some (length h)) (Some s)"
    by blast
  from new have "has_shape h' (Some (length h)) (Some s)"
    unfolding has_shape_def by (rule shape_from_mono) simp
  moreover have "has_shape h' (Some a) (Some s)"
    unfolding has_shape_def
    by (rule shape_from_frame [OF sh [unfolded has_shape_def]]) (use len pre in auto)
  ultimately show "\<exists>d a' h'. tree_to_dict h (Some a) = Some d
            \<and> dict_to_tree h d = (Some a', h')
            \<and> has_shape h' (Some a') (Some s)
            \<and> shape_from (length h) h' (Some a') (Some s)
            \<and> has_shape h' (Some a) (Some s)"
    using td run new by blast
qed

theorem document_round_trip_witness:
  "has_shape codec_tree (Some 0) (Some codec_shape)
   \<and> tree_to_dict codec_tree (Some 0) =
       Some (PDict [(''value'', PAtom 10),
                    (''left'', PDict [(''value'', PAtom 5), (''left'', PDict [(''value'', PAtom 3)])]),
                    (''right'', PDict [(''value'', PAtom 15)])])
   \<and> fst (dict_to_tree codec_tree (doc_of codec_shape)) = Some 4
   \<and> has_shape (snd (dict_to_tree codec_tree (doc_of codec_shape))) (Some 4) (Some codec_shape)"
proof -
  have sh: "has_shape codec_tree (Some 0) (Some codec_shape)"
    by code_simp
  have td: "tree_to_dict codec_tree (Some 0) =
       Some (PDict [(''value'', PAtom 10),
                    (''left'', PDict [(''value'', PAtom 5), (''left'', PDict [(''value'', PAtom 3)])]),
                    (''right'', PDict [(''value'', PAtom 15)])])"
    by code_simp
  have doc: "doc_of codec_shape =
       PDict [(''value'', PAtom 10),
              (''left'', PDict [(''value'', PAtom 5), (''left'', PDict [(''value'', PAtom 3)])]),
              (''right'', PDict [(''value'', PAtom 15)])]"
    by code_simp
  have root: "fst (dict_to_tree codec_tree (doc_of codec_shape)) = Some 4"
    by code_simp
  from document_round_trip [of codec_tree 0 codec_shape] sh
  obtain d a' h' where "tree_to_dict codec_tree (Some 0) = Some d"
    and run: "dict_to_tree codec_tree d = (Some a', h')"
    and new: "has_shape h' (Some a') (Some codec_shape)"
    by blast
  with td doc have d: "d = doc_of codec_shape" by simp
  with run root have "a' = 4" "h' = snd (dict_to_tree codec_tree (doc_of codec_shape))"
    by simp_all
  with new sh td root show ?thesis by simp
qed

end
